theory Spec2Isabelle
  imports
    Main
    "HOL-Library.Log_Nat"
    "HOL-Library.Word"
    "HOL-Library.Signed_Division"
    "HOL-Library.AList"
    "HOL-Library.Multiset"
    "HOL-Library.Sublist"
    "HOL-Library.Char_ord"
    "HOL-Library.List_Lexorder"
begin

section \<open>Go's float64\<close>

text \<open>
  The loader computes with Go's \<^verbatim>\<open>float64\<close>: IEEE 754 binary64, every operation
  rounded to nearest, ties to even, each operation rounded on its own (as the gc compiler
  does on amd64, where no multiply-add is fused).

  A finite value is \<open>Finite s m e\<close>, standing for \<open>(-1)\<^sup>s * m * 2\<^sup>e\<close>, in the form the
  bits of a binary64 decode to: a normal number has \<open>2\<^sup>5\<^sup>2 \<le> m < 2\<^sup>5\<^sup>3\<close> and
  \<open>-1074 \<le> e \<le> 971\<close>, a subnormal number or a zero has \<open>m < 2\<^sup>5\<^sup>2\<close> and \<open>e = -1074\<close>.
  The sign is \<open>True\<close> for a negative value. All NaNs are one value: the loader only
  compares and prints them.
\<close>

datatype float64 = Finite bool int int | Infinity bool | NaN

fun wf_float64 :: "float64 \<Rightarrow> bool" where
  "wf_float64 (Finite s m e) =
     (0 \<le> m \<and> m < 2 ^ 53 \<and> - 1074 \<le> e \<and> e \<le> 971 \<and> (m < 2 ^ 52 \<longrightarrow> e = - 1074))"
| "wf_float64 (Infinity s) = True"
| "wf_float64 NaN = True"

fun is_finite :: "float64 \<Rightarrow> bool" where
  "is_finite (Finite s m e) = True"
| "is_finite (Infinity s) = False"
| "is_finite NaN = False"

fun is_neg_zero :: "float64 \<Rightarrow> bool" where
  "is_neg_zero (Finite s m e) = (s \<and> m = 0)"
| "is_neg_zero (Infinity s) = False"
| "is_neg_zero NaN = False"

definition fzero :: float64 where
  "fzero = Finite False 0 (- 1074)"

definition pack :: "bool \<Rightarrow> int \<Rightarrow> int \<Rightarrow> float64" where
  \<comment> \<open>a mantissa of 53 bits with an exponent above 971 is beyond the largest float64\<close>
  "pack s m e = (if 971 < e then Infinity s else Finite s m e)"

definition round_ne :: "bool \<Rightarrow> int \<Rightarrow> int \<Rightarrow> float64" where
  \<comment> \<open>the float64 nearest to \<open>n * 2\<^sup>e\<close> (\<open>n \<ge> 0\<close>), ties to the even mantissa\<close>
  "round_ne s n e =
    (if n \<le> 0 then Finite s 0 (- 1074)
     else let e' = max (e + bitlen n - 53) (- 1074) in
       if e' \<le> e then pack s (n * 2 ^ nat (e - e')) e'
       else let d = 2 ^ nat (e' - e); q = n div d; r = n mod d;
                q' = (if d < 2 * r \<or> (2 * r = d \<and> odd q) then q + 1 else q)
            in if q' = 2 ^ 53 then pack s (2 ^ 52) (e' + 1) else pack s q' e')"

definition round_ratio :: "bool \<Rightarrow> int \<Rightarrow> int \<Rightarrow> int \<Rightarrow> float64" where
  \<comment> \<open>the float64 nearest to \<open>(p / q) * 2\<^sup>e\<close> (\<open>p \<ge> 0\<close>, \<open>q > 0\<close>): the quotient is taken
      to more than 60 bits, and a last bit records whether anything was left over\<close>
  "round_ratio s p q e =
    (let k = nat (bitlen q + 60); t = p * 2 ^ k;
         n = 2 * (t div q) + (if t mod q = 0 then 0 else 1)
     in round_ne s n (e - int k - 1))"

function isqrt :: "int \<Rightarrow> int" where
  "isqrt n = (if n < 2 then n
              else let r = 2 * isqrt (n div 4) in if (r + 1) * (r + 1) \<le> n then r + 1 else r)"
  by pat_completeness auto
termination
  by (relation "measure nat") auto

declare isqrt.simps [simp del]

definition with_sign :: "bool \<Rightarrow> int \<Rightarrow> int" where
  "with_sign s m = (if s then - m else m)"

fun fneg :: "float64 \<Rightarrow> float64" where
  "fneg (Finite s m e) = Finite (\<not> s) m e"
| "fneg (Infinity s) = Infinity (\<not> s)"
| "fneg NaN = NaN"

fun fadd :: "float64 \<Rightarrow> float64 \<Rightarrow> float64" where
  \<comment> \<open>a zero added to a number leaves the number; two zeros give \<open>-0\<close> only when both
      are \<open>-0\<close>; a sum that cancels is \<open>+0\<close>; any other sum is rounded\<close>
  "fadd (Finite sa ma ea) (Finite sb mb eb) =
     (if ma = 0 \<and> mb = 0 then Finite (sa \<and> sb) 0 (- 1074)
      else if ma = 0 then Finite sb mb eb
      else if mb = 0 then Finite sa ma ea
      else let e = min ea eb;
               n = with_sign sa (ma * 2 ^ nat (ea - e)) + with_sign sb (mb * 2 ^ nat (eb - e))
           in if n = 0 then Finite False 0 (- 1074) else round_ne (n < 0) \<bar>n\<bar> e)"
| "fadd (Finite sa ma ea) (Infinity sb) = Infinity sb"
| "fadd (Infinity sa) (Finite sb mb eb) = Infinity sa"
| "fadd (Infinity sa) (Infinity sb) = (if sa = sb then Infinity sa else NaN)"
| "fadd NaN y = NaN"
| "fadd x NaN = NaN"

definition fsub :: "float64 \<Rightarrow> float64 \<Rightarrow> float64" where
  "fsub x y = fadd x (fneg y)"

fun fmul :: "float64 \<Rightarrow> float64 \<Rightarrow> float64" where
  "fmul (Finite sa ma ea) (Finite sb mb eb) = round_ne (sa \<noteq> sb) (ma * mb) (ea + eb)"
| "fmul (Finite sa ma ea) (Infinity sb) = (if ma = 0 then NaN else Infinity (sa \<noteq> sb))"
| "fmul (Infinity sa) (Finite sb mb eb) = (if mb = 0 then NaN else Infinity (sa \<noteq> sb))"
| "fmul (Infinity sa) (Infinity sb) = Infinity (sa \<noteq> sb)"
| "fmul NaN y = NaN"
| "fmul x NaN = NaN"

fun fdiv :: "float64 \<Rightarrow> float64 \<Rightarrow> float64" where
  "fdiv (Finite sa ma ea) (Finite sb mb eb) =
     (if mb = 0 then (if ma = 0 then NaN else Infinity (sa \<noteq> sb))
      else round_ratio (sa \<noteq> sb) ma mb (ea - eb))"
| "fdiv (Finite sa ma ea) (Infinity sb) = Finite (sa \<noteq> sb) 0 (- 1074)"
| "fdiv (Infinity sa) (Finite sb mb eb) = Infinity (sa \<noteq> sb)"
| "fdiv (Infinity sa) (Infinity sb) = NaN"
| "fdiv NaN y = NaN"
| "fdiv x NaN = NaN"

fun fsqrt :: "float64 \<Rightarrow> float64" where
  \<comment> \<open>\<^verbatim>\<open>math.Sqrt\<close>: correctly rounded; \<open>Sqrt(-0) = -0\<close>, \<open>Sqrt(x < 0) = NaN\<close>\<close>
  "fsqrt (Finite s m e) =
     (if m = 0 then Finite s 0 (- 1074)
      else if s then NaN
      else let k = (if even e then 120 else 121); n = m * 2 ^ k; r = isqrt n
           in round_ne False (2 * r + (if r * r = n then 0 else 1)) ((e - int k) div 2 - 1))"
| "fsqrt (Infinity s) = (if s then NaN else Infinity False)"
| "fsqrt NaN = NaN"

fun flt :: "float64 \<Rightarrow> float64 \<Rightarrow> bool" where
  \<comment> \<open>Go's \<^verbatim>\<open><\<close> on float64: false whenever an operand is NaN\<close>
  "flt (Finite sa ma ea) (Finite sb mb eb) =
     (let e = min ea eb
      in with_sign sa (ma * 2 ^ nat (ea - e)) < with_sign sb (mb * 2 ^ nat (eb - e)))"
| "flt (Finite sa ma ea) (Infinity sb) = (\<not> sb)"
| "flt (Infinity sa) (Finite sb mb eb) = sa"
| "flt (Infinity sa) (Infinity sb) = (sa \<and> \<not> sb)"
| "flt NaN y = False"
| "flt x NaN = False"

definition fgt :: "float64 \<Rightarrow> float64 \<Rightarrow> bool" where
  "fgt x y = flt y x"



definition float64_of_int :: "int \<Rightarrow> float64" where
  \<comment> \<open>the conversion \<^verbatim>\<open>float64(n)\<close> of an integer\<close>
  "float64_of_int n = round_ne (n < 0) \<bar>n\<bar> 0"

definition float64_of_ratio :: "int \<Rightarrow> int \<Rightarrow> float64" where
  \<comment> \<open>the float64 a decimal text denotes: the nearest to \<open>p / q\<close> (\<open>q > 0\<close>), as
      \<^verbatim>\<open>strconv.ParseFloat\<close> returns it for \<^verbatim>\<open>0.1\<close> with \<open>p = 1\<close>, \<open>q = 10\<close>\<close>
  "float64_of_ratio p q = round_ratio (p < 0) \<bar>p\<bar> q 0"

section \<open>Formatting verbs of \<^verbatim>\<open>fmt.Sprintf\<close>\<close>

definition digit :: "int \<Rightarrow> char" where
  "digit n = ''0123456789'' ! nat n"

function digits :: "int \<Rightarrow> string" where
  \<comment> \<open>the decimal digits of a number that is not negative\<close>
  "digits n = (if n < 10 then [digit n] else digits (n div 10) @ [digit (n mod 10)])"
  by pat_completeness auto
termination
  by (relation "measure nat") auto

declare digits.simps [simp del]

definition fmt_d :: "64 word \<Rightarrow> string" where
  \<comment> \<open>the verb \<^verbatim>\<open>%d\<close> at an int64\<close>
  "fmt_d w = (if sint w < 0 then ''-'' @ digits (- sint w) else digits (sint w))"

definition tenths :: "int \<Rightarrow> int \<Rightarrow> int" where
  \<comment> \<open>\<open>m * 2\<^sup>e\<close> in tenths, rounded to the nearest integer, a tie to the even one\<close>
  "tenths m e =
    (if 0 \<le> e then 10 * m * 2 ^ nat e
     else let d = 2 ^ nat (- e); q = (10 * m) div d; r = (10 * m) mod d
          in if d < 2 * r \<or> (2 * r = d \<and> odd q) then q + 1 else q)"

fun fmt_f1 :: "float64 \<Rightarrow> string" where
  \<comment> \<open>the verb \<^verbatim>\<open>%.1f\<close> at a float64: the exact value rounded to one decimal\<close>
  "fmt_f1 (Finite s m e) =
     (let t = tenths m e
      in (if s then ''-'' else []) @ digits (t div 10) @ ''.'' @ digits (t mod 10))"
| "fmt_f1 (Infinity s) = (if s then ''-Inf'' else ''+Inf'')"
| "fmt_f1 NaN = ''NaN''"

definition int64_div :: "64 word \<Rightarrow> 64 word \<Rightarrow> 64 word" where
  \<comment> \<open>Go's \<^verbatim>\<open>/\<close> on int64, for a divisor that is not zero: the quotient is truncated
      towards zero\<close>
  "int64_div a b = word_of_int (sint a sdiv sint b)"

definition sprintf_line :: "float64 \<Rightarrow> 64 word \<Rightarrow> 64 word \<Rightarrow> float64 \<Rightarrow> float64 \<Rightarrow> string" where
  \<comment> \<open>\<^verbatim>\<open>fmt.Sprintf("%.1f,%d,%d,%.1f,%.1f", a, b, c, d, e)\<close>\<close>
  "sprintf_line a b c d e =
     fmt_f1 a @ '','' @ fmt_d b @ '','' @ fmt_d c @ '','' @ fmt_f1 d @ '','' @ fmt_f1 e"

section \<open>The data model\<close>

record run =
  opsSec :: float64
  readBytes :: "64 word"
  writeBytes :: "64 word"
  readAmp :: float64
  writeAmp :: float64

text \<open>
  A Go map is an association list with distinct keys; the order of the list stands for
  the order in which \<^verbatim>\<open>range\<close> happens to visit the map, which the language leaves
  open. Every workload is reached through one pointer only, the one stored under its
  name, so the pointers of \<^verbatim>\<open>map[string]*workload\<close> are modelled by the values.
\<close>

record workload =
  days :: "(string \<times> run list) list"

record loader =
  data :: "(string \<times> workload) list"

definition wf_run :: "run \<Rightarrow> bool" where
  "wf_run r = (wf_float64 (opsSec r) \<and> wf_float64 (readAmp r) \<and> wf_float64 (writeAmp r))"

definition day_runs :: "workload \<Rightarrow> string \<Rightarrow> run list" where
  \<comment> \<open>\<^verbatim>\<open>w.days[day]\<close>: the nil slice at an absent key\<close>
  "day_runs w day = (case map_of (days w) day of None \<Rightarrow> [] | Some rs \<Rightarrow> rs)"

definition zero_run :: run where
  \<comment> \<open>\<^verbatim>\<open>var avg run\<close>\<close>
  "zero_run = \<lparr>opsSec = fzero, readBytes = 0, writeBytes = 0, readAmp = fzero, writeAmp = fzero\<rparr>"

definition mk_run :: "float64 \<Rightarrow> 64 word \<Rightarrow> 64 word \<Rightarrow> float64 \<Rightarrow> float64 \<Rightarrow> run" where
  \<comment> \<open>a record, its five fields in the order of the struct\<close>
  "mk_run ops rb wb ra wa =
     \<lparr>opsSec = ops, readBytes = rb, writeBytes = wb, readAmp = ra, writeAmp = wa\<rparr>"

datatype panic = IntegerDivideByZero

section \<open>The Day Aggregator: \<^verbatim>\<open>cookDay\<close>\<close>

fun sum_loop :: "run list \<Rightarrow> float64 \<Rightarrow> float64" where
  \<comment> \<open>lines 104-107\<close>
  "sum_loop [] s = s"
| "sum_loop (r # rs) s = sum_loop rs (fadd s (opsSec r))"

fun sum2_loop :: "float64 \<Rightarrow> run list \<Rightarrow> float64 \<Rightarrow> float64" where
  \<comment> \<open>lines 110-114\<close>
  "sum2_loop mean [] s2 = s2"
| "sum2_loop mean (r # rs) s2 =
     (let v = fsub (opsSec r) mean in sum2_loop mean rs (fadd s2 (fmul v v)))"

fun avg_loop :: "float64 \<Rightarrow> float64 \<Rightarrow> run list \<Rightarrow> run \<times> nat \<Rightarrow> run \<times> nat" where
  \<comment> \<open>lines 120-133\<close>
  "avg_loop lo hi [] (avg, cnt) = (avg, cnt)"
| "avg_loop lo hi (r # rs) (avg, cnt) =
     (if flt (opsSec r) lo \<or> fgt (opsSec r) hi then avg_loop lo hi rs (avg, cnt)
      else avg_loop lo hi rs
             (\<lparr>opsSec = fadd (opsSec avg) (opsSec r),
               readBytes = readBytes avg + readBytes r,
               writeBytes = writeBytes avg + writeBytes r,
               readAmp = fadd (readAmp avg) (readAmp r),
               writeAmp = fadd (writeAmp avg) (writeAmp r)\<rparr>, cnt + 1))"

fun kept_loop :: "float64 \<Rightarrow> float64 \<Rightarrow> run list \<Rightarrow> run list" where
  \<comment> \<open>the records at which the third loop reaches line 127, in order\<close>
  "kept_loop lo hi [] = []"
| "kept_loop lo hi (r # rs) =
     (if flt (opsSec r) lo \<or> fgt (opsSec r) hi then kept_loop lo hi rs
      else r # kept_loop lo hi rs)"

definition cook_mean :: "run list \<Rightarrow> float64" where
  \<comment> \<open>line 108\<close>
  "cook_mean runs = fdiv (sum_loop runs fzero) (float64_of_int (int (length runs)))"

definition cook_stddev :: "run list \<Rightarrow> float64" where
  \<comment> \<open>line 116\<close>
  "cook_stddev runs =
     fsqrt (fdiv (sum2_loop (cook_mean runs) runs fzero) (float64_of_int (int (length runs))))"

definition cook_lo :: "run list \<Rightarrow> float64" where
  "cook_lo runs = fsub (cook_mean runs) (cook_stddev runs)"

definition cook_hi :: "run list \<Rightarrow> float64" where
  "cook_hi runs = fadd (cook_mean runs) (cook_stddev runs)"

definition cook_avg :: "run list \<Rightarrow> run \<times> nat" where
  \<comment> \<open>the sums \<^verbatim>\<open>avg\<close> and the number \<^verbatim>\<open>count\<close> when the third loop is left\<close>
  "cook_avg runs = avg_loop (cook_lo runs) (cook_hi runs) runs (zero_run, 0)"

definition cook_kept :: "run list \<Rightarrow> run list" where
  "cook_kept runs = kept_loop (cook_lo runs) (cook_hi runs) runs"

definition cook_count :: "run list \<Rightarrow> nat" where
  "cook_count runs = snd (cook_avg runs)"

definition cookDay :: "run list \<Rightarrow> panic + string" where
  \<comment> \<open>lines 135-140. \<^verbatim>\<open>count\<close> is an \<^verbatim>\<open>int\<close> of 64 bits, and a slice has fewer than
      \<open>2\<^sup>6\<^sup>3\<close> elements; dividing an int64 by zero is a run-time panic, dividing a float64
      by zero is not\<close>
  "cookDay runs =
     (let (avg, cnt) = cook_avg runs
      in if (word_of_nat cnt :: 64 word) = 0 then Inl IntegerDivideByZero
         else Inr (sprintf_line
                     (fdiv (opsSec avg) (float64_of_int (int cnt)))
                     (int64_div (readBytes avg) (word_of_nat cnt))
                     (int64_div (writeBytes avg) (word_of_nat cnt))
                     (fdiv (readAmp avg) (float64_of_int (int cnt)))
                     (fdiv (writeAmp avg) (float64_of_int (int cnt)))))"

section \<open>The Workload Cooker and the Report Builder\<close>





section \<open>Loading a file: \<^verbatim>\<open>load\<close>\<close>

function strings_Split :: "char \<Rightarrow> string \<Rightarrow> string list" where
  \<comment> \<open>\<^verbatim>\<open>strings.Split(s, string(sep))\<close> for a separator of one byte\<close>
  "strings_Split sep s =
     (case dropWhile (\<lambda>c. c \<noteq> sep) s of
        [] \<Rightarrow> [s]
      | c # rest \<Rightarrow> takeWhile (\<lambda>c. c \<noteq> sep) s # strings_Split sep rest)"
  by pat_completeness auto
termination
proof (relation "measure (\<lambda>(sep, s). length s)")
  show "wf (measure (\<lambda>(sep, s). length s))"
    by simp
next
  fix sep :: char and s :: string and c rest
  assume "dropWhile (\<lambda>c. c \<noteq> sep) s = c # rest"
  then have "length (c # rest) \<le> length s"
    by (metis length_dropWhile_le)
  then show "((sep, rest), (sep, s)) \<in> measure (\<lambda>(sep, s). length s)"
    by simp
qed

declare strings_Split.simps [simp del]

text \<open>
  \<^verbatim>\<open>fmt.Sscanf\<close> belongs to Go's library, not to the loader: \<^verbatim>\<open>load\<close> takes it as a
  parameter. Applied to a line, it returns the number of fields it filled, an error (or
  none) and the fields.
\<close>

record scanned =
  scan_n :: nat
  scan_err :: "string option"
  scan_name :: string
  scan_run :: run

definition fmt_v :: "string option \<Rightarrow> string" where
  \<comment> \<open>the verb \<^verbatim>\<open>%v\<close> at an error\<close>
  "fmt_v e = (case e of None \<Rightarrow> ''<nil>'' | Some msg \<Rightarrow> msg)"

definition record_run :: "string \<Rightarrow> string \<Rightarrow> run \<Rightarrow> loader \<Rightarrow> loader" where
  \<comment> \<open>lines 72-77\<close>
  "record_run name day r l =
     (let w = (case map_of (data l) name of None \<Rightarrow> \<lparr>days = []\<rparr> | Some w \<Rightarrow> w);
          w' = w\<lparr>days := AList.update day (day_runs w day @ [r]) (days w)\<rparr>
      in l\<lparr>data := AList.update name w' (data l)\<rparr>)"

fun scan_loop ::
  "(string \<Rightarrow> scanned) \<Rightarrow> string \<Rightarrow> string list \<Rightarrow> loader \<times> string list
     \<Rightarrow> loader \<times> string list" where
  \<comment> \<open>lines 55-78: the store and what was written to the error stream\<close>
  "scan_loop sscanf day [] (l, err) = (l, err)"
| "scan_loop sscanf day (line # rest) (l, err) =
     (if \<not> prefix ''Benchmark'' line then scan_loop sscanf day rest (l, err)
      else let x = sscanf line in
        if scan_err x \<noteq> None \<or> scan_n x \<noteq> 7
        then scan_loop sscanf day rest
               (l, err @ [line @ '': '' @ fmt_v (scan_err x) @ [CHR 0x0A]])
        else scan_loop sscanf day rest (record_run (scan_name x) day (scan_run x) l, err))"

definition load ::
  "char \<Rightarrow> (string \<Rightarrow> scanned) \<Rightarrow> string \<Rightarrow> string + string list
     \<Rightarrow> loader \<times> string list \<Rightarrow> loader \<times> string list" where
  \<comment> \<open>lines 39-79. \<open>sep\<close> is \<^verbatim>\<open>os.PathSeparator\<close>; \<open>file\<close> is what opening and scanning
      the file gives: the error of \<^verbatim>\<open>os.Open\<close>, or the lines the scanner returns\<close>
  "load sep sscanf path file st =
     (let parts = strings_Split sep path in
      if length parts < 2 then st
      else let day = parts ! 1 in
        case file of
          Inl e \<Rightarrow> (fst st, snd st @ [e @ [CHR 0x0A]])
        | Inr lines \<Rightarrow> scan_loop sscanf day lines st)"

definition runs_at :: "loader \<Rightarrow> string \<Rightarrow> string \<Rightarrow> run list" where
  \<comment> \<open>the runs stored for a workload name and a day\<close>
  "runs_at l name day =
     (case map_of (data l) name of None \<Rightarrow> [] | Some w \<Rightarrow> day_runs w day)"

section \<open>The Day Aggregator as the specification words it\<close>

definition fsum :: "float64 list \<Rightarrow> float64" where
  \<comment> \<open>a float64 sum, taken from the left, from \<open>+0\<close>\<close>
  "fsum xs = foldl fadd fzero xs"







definition averages_line :: "run list \<Rightarrow> string" where
  \<comment> \<open>for each field, the sum over the records divided by their number\<close>
  "averages_line kept =
     sprintf_line
       (fdiv (fsum (map opsSec kept)) (float64_of_int (int (length kept))))
       (int64_div (sum_list (map readBytes kept)) (word_of_nat (length kept)))
       (int64_div (sum_list (map writeBytes kept)) (word_of_nat (length kept)))
       (fdiv (fsum (map readAmp kept)) (float64_of_int (int (length kept))))
       (fdiv (fsum (map writeAmp kept)) (float64_of_int (int (length kept))))"

section \<open>Notions the claims are stated with\<close>






section \<open>Evaluating float64 operations\<close>

lemmas f64_eval =
  round_ne_def round_ratio_def pack_def compute_bitlen with_sign_def Let_def isqrt.simps
  float64_of_int_def float64_of_ratio_def fsub_def fgt_def fzero_def

lemmas fmt_eval =
  sprintf_line_def fmt_d_def tenths_def digits.simps digit_def int64_div_def
  signed_divide_int_def

lemma float64_of_int_1: "float64_of_int 1 = Finite False 4503599627370496 (- 52)"
  by (simp add: f64_eval cong: let_weak_cong)

lemma float64_of_int_2: "float64_of_int 2 = Finite False 4503599627370496 (- 51)"
  by (simp add: f64_eval cong: let_weak_cong)


lemma float64_of_int_100: "float64_of_int 100 = Finite False 7036874417766400 (- 46)"
  by (simp add: f64_eval cong: let_weak_cong)

lemma float64_of_int_10000: "float64_of_int 10000 = Finite False 5497558138880000 (- 39)"
  by (simp add: f64_eval cong: let_weak_cong)

lemma ops_85387_8: "float64_of_ratio 853878 10 = Finite False 5867804935638221 (- 36)"
  by (simp add: f64_eval cong: let_weak_cong)

lemma ops_10583_9: "float64_of_ratio 105839 10 = Finite False 5818560558609203 (- 39)"
  by (simp add: f64_eval cong: let_weak_cong)

lemma ops_1234_5: "float64_of_ratio 12345 10 = Finite False 5429388417957888 (- 42)"
  by (simp add: f64_eval cong: let_weak_cong)



section \<open>Checks of the float64 model on known values\<close>

lemma float64_tenth_plus_fifth:
  "fadd (float64_of_ratio 1 10) (float64_of_ratio 2 10) = Finite False 5404319552844596 (- 54)"
  "float64_of_ratio 3 10 = Finite False 5404319552844595 (- 54)"
  by (simp_all add: f64_eval cong: let_weak_cong)

lemma float64_third:
  "fdiv (float64_of_int 1) (float64_of_int 3) = Finite False 6004799503160661 (- 54)"
  by (simp add: f64_eval cong: let_weak_cong)

lemma float64_sqrt_2:
  "fsqrt (float64_of_int 2) = Finite False 6369051672525773 (- 52)"
  by (simp add: f64_eval cong: let_weak_cong)

lemma float64_ties_to_even:
  "float64_of_int (2 ^ 53 + 1) = Finite False 4503599627370496 1"
  "float64_of_int (2 ^ 53 + 3) = Finite False 4503599627370498 1"
  by (simp_all add: f64_eval cong: let_weak_cong)

lemma float64_overflow:
  "fadd (Finite False 9007199254740991 971) (Finite False 9007199254740991 971) = Infinity False"
  "fmul (Finite False 9007199254740991 971) (float64_of_int 2) = Infinity False"
  by (simp_all add: f64_eval cong: let_weak_cong)

lemma float64_underflow:
  "fdiv (Finite False 1 (- 1074)) (float64_of_int 2) = Finite False 0 (- 1074)"
  "fdiv (Finite False 3 (- 1074)) (float64_of_int 2) = Finite False 2 (- 1074)"
  "fmul (Finite True 1 (- 1074)) (Finite False 1 (- 1074)) = Finite True 0 (- 1074)"
  by (simp_all add: f64_eval cong: let_weak_cong)

lemma fmt_f1_rounds_exact_value:
  "fmt_f1 (float64_of_ratio 25 100) = ''0.2''"
  "fmt_f1 (float64_of_ratio 35 100) = ''0.3''"
  "fmt_f1 (float64_of_ratio 5 100) = ''0.1''"
  "fmt_f1 (fneg (float64_of_ratio 5 1000)) = ''-0.0''"
  by (simp_all add: f64_eval fmt_eval cong: let_weak_cong)

section \<open>Rounding is to nearest, ties to even\<close>

text \<open>
  Whatever is rounded, the result is a well-formed float64. When it is finite, no
  well-formed float64 is nearer to the exact value \<open>n * 2\<^sup>e\<close>, and when another one is
  as near, the mantissa of the result is even. Values are compared in units of \<open>2\<^sup>E\<close>,
  for any \<open>E\<close> below the three exponents.
\<close>

lemma lt_pow_bitlen: "0 < n \<Longrightarrow> n < 2 ^ nat (bitlen n)"
  using bitlen_bounds [of n] by simp

lemma ge_pow_bitlen: "0 < n \<Longrightarrow> 2 ^ nat (bitlen n - 1) \<le> n"
  using bitlen_bounds [of n] by simp

lemma int_div_less:
  fixes n d c :: int
  assumes "0 < d" and "n < c * d"
  shows "n div d < c"
proof -
  have "d * (n div d) \<le> n"
    using assms(1) pos_mod_sign [of d n] mult_div_mod_eq [of d n] by linarith
  then have "d * (n div d) < d * c"
    using assms(2) by (simp add: mult.commute)
  then show ?thesis
    using assms(1) by (simp add: mult_less_cancel_left_pos)
qed

lemma int_le_div:
  fixes n d c :: int
  assumes "0 < d" and "c * d \<le> n"
  shows "c \<le> n div d"
  using zdiv_mono1 [OF assms(2,1)] assms(1) by simp

lemma round_ne_exact_wf:
  assumes "0 < n" and "e' = max (e + bitlen n - 53) (- 1074)" and "e' \<le> e"
  shows "wf_float64 (pack s (n * 2 ^ nat (e - e')) e')"
proof (cases "971 < e'")
  case True
  then show ?thesis by (simp add: pack_def)
next
  case False
  let ?M = "n * 2 ^ nat (e - e')"
  have bl: "bitlen ?M = bitlen n + (e - e')"
    using assms(1,3) by simp
  have ge: "e + bitlen n - 53 \<le> e'"
    using assms(2) by simp
  have "bitlen ?M \<le> 53"
    using ge by (simp add: bl)
  then have lt: "?M < 2 ^ 53"
    by (simp add: bitlen_le_iff_power)
  have sub: "e' = - 1074" if "?M < 2 ^ 52"
  proof -
    from that have "bitlen ?M \<le> 52"
      by (simp add: bitlen_le_iff_power)
    then have "e + bitlen n - 53 < e'"
      by (simp add: bl)
    then show ?thesis
      using assms(2) by simp
  qed
  have "0 \<le> ?M"
    using assms(1) by simp
  moreover have "- 1074 \<le> e'"
    using assms(2) by simp
  ultimately show ?thesis
    using False lt sub by (simp add: pack_def)
qed

lemma round_ne_quotient:
  assumes "0 < n" and "e' = max (e + bitlen n - 53) (- 1074)" and "e < e'"
  shows "n div 2 ^ nat (e' - e) < 2 ^ 53"
    and "- 1074 < e' \<Longrightarrow> 2 ^ 52 \<le> n div 2 ^ nat (e' - e)"
proof -
  let ?k = "nat (e' - e)"
  have k: "bitlen n - 53 \<le> int ?k"
    using assms(2,3) by simp
  have "n < 2 ^ nat (bitlen n)"
    using assms(1) by (rule lt_pow_bitlen)
  also have "\<dots> \<le> 2 ^ (53 + ?k)"
  proof (rule power_increasing)
    show "nat (bitlen n) \<le> 53 + ?k"
      using k by linarith
  qed simp
  finally have "n < 2 ^ 53 * 2 ^ ?k"
    by (simp add: power_add)
  then show "n div 2 ^ ?k < 2 ^ 53"
    by (intro int_div_less) simp_all
  show "2 ^ 52 \<le> n div 2 ^ ?k" if "- 1074 < e'"
  proof -
    from that have e': "e' = e + bitlen n - 53"
      using assms(2) by simp
    then have kk: "e' - e = bitlen n - 53" and "53 \<le> bitlen n"
      using assms(3) by simp_all
    then have "nat (bitlen n - 1) = 52 + nat (bitlen n - 53)"
      by linarith
    then have "nat (bitlen n - 1) = 52 + ?k"
      by (simp only: kk)
    then have "(2::int) ^ 52 * 2 ^ ?k \<le> n"
      using ge_pow_bitlen [OF assms(1)] by (simp add: power_add)
    then show ?thesis
      by (intro int_le_div) simp_all
  qed
qed

lemma round_ne_wf: "wf_float64 (round_ne s n e)"
proof (cases "n \<le> 0")
  case True
  then show ?thesis by (simp add: round_ne_def)
next
  case False
  then have n: "0 < n" by simp
  define e' where "e' = max (e + bitlen n - 53) (- 1074)"
  show ?thesis
  proof (cases "e' \<le> e")
    case True
    then show ?thesis
      using False round_ne_exact_wf [OF n e'_def True, of s]
      by (simp add: round_ne_def e'_def [symmetric])
  next
    case notle: False
    then have lt: "e < e'" by simp
    define d :: int where "d = 2 ^ nat (e' - e)"
    define q where "q = n div d"
    define q' where "q' = (if d < 2 * (n mod d) \<or> (2 * (n mod d) = d \<and> odd q) then q + 1 else q)"
    have q: "q < 2 ^ 53" and q52: "- 1074 < e' \<Longrightarrow> 2 ^ 52 \<le> q"
      using round_ne_quotient [OF n e'_def lt] by (simp_all add: q_def d_def)
    have "0 \<le> q"
      using n by (simp add: q_def d_def pos_imp_zdiv_nonneg_iff)
    have q'_bounds: "q \<le> q'" "q' \<le> 2 ^ 53" "0 \<le> q'"
      using q \<open>0 \<le> q\<close> by (simp_all add: q'_def)
    have e'_lo: "- 1074 \<le> e'"
      by (simp add: e'_def)
    have c1: "(n \<le> 0) = False" and c2: "(e' \<le> e) = False"
      using n notle by simp_all
    have r: "round_ne s n e = (if q' = 2 ^ 53 then pack s (2 ^ 52) (e' + 1) else pack s q' e')"
      by (simp only: round_ne_def Let_def e'_def [symmetric] d_def [symmetric]
            q_def [symmetric] q'_def [symmetric] c1 c2 if_False)
    show ?thesis
    proof (cases "q' = 2 ^ 53")
      case True
      then show ?thesis
        using e'_lo by (simp add: r pack_def)
    next
      case False
      then have "q' < 2 ^ 53"
        using q'_bounds by simp
      moreover have "e' = - 1074" if "q' < 2 ^ 52"
        using that q52 q'_bounds e'_lo by force
      ultimately show ?thesis
        using False q'_bounds e'_lo by (simp add: r pack_def)
    qed
  qed
qed

lemma pow2_split:
  fixes a b c :: int
  assumes "c \<le> b" and "b \<le> a"
  shows "(2::int) ^ nat (a - c) = 2 ^ nat (a - b) * 2 ^ nat (b - c)"
proof -
  have "nat (a - c) = nat (a - b) + nat (b - c)"
    using assms by linarith
  then show ?thesis
    by (simp add: power_add)
qed

lemma float64_off_grid:
  \<comment> \<open>no float64 lies strictly between two neighbours of the grid a value is rounded on\<close>
  assumes wf: "wf_float64 (Finite sg mg eg)"
    and E: "E \<le> eg" "E \<le> e'"
    and q: "- 1074 < e' \<longrightarrow> 2 ^ 52 \<le> q" and e': "- 1074 \<le> e'"
  shows "mg * 2 ^ nat (eg - E) \<le> q * 2 ^ nat (e' - E)
         \<or> (q + 1) * 2 ^ nat (e' - E) \<le> mg * 2 ^ nat (eg - E)"
proof (cases "e' \<le> eg")
  case True
  have eq: "mg * 2 ^ nat (eg - E) = (mg * 2 ^ nat (eg - e')) * 2 ^ nat (e' - E)"
    by (simp only: pow2_split [OF E(2) True] mult.assoc)
  have grid: "k * 2 ^ nat (e' - E) \<le> q * 2 ^ nat (e' - E)
                   \<or> (q + 1) * 2 ^ nat (e' - E) \<le> k * 2 ^ nat (e' - E)" for k :: int
  proof (cases "k \<le> q")
    case True
    then have "k * 2 ^ nat (e' - E) \<le> q * 2 ^ nat (e' - E)"
      by (rule mult_right_mono) simp
    then show ?thesis ..
  next
    case False
    then have "q + 1 \<le> k" by simp
    then have "(q + 1) * 2 ^ nat (e' - E) \<le> k * 2 ^ nat (e' - E)"
      by (rule mult_right_mono) simp
    then show ?thesis ..
  qed
  show ?thesis
    unfolding eq by (rule grid)
next
  case False
  then have lt: "eg < e'" by simp
  have "- 1074 \<le> eg"
    using wf by simp
  then have "2 ^ 52 \<le> q"
    using q lt by simp
  have "mg < 2 ^ 53"
    using wf by simp
  have "mg * 2 ^ nat (eg - E) \<le> 2 ^ 53 * 2 ^ nat (eg - E)"
    using \<open>mg < 2 ^ 53\<close> by (simp add: mult_right_mono)
  also have "\<dots> = 2 ^ 52 * 2 ^ nat (eg + 1 - E)"
  proof -
    have "nat (eg + 1 - E) = Suc (nat (eg - E))"
      using E(1) by simp
    then show ?thesis by simp
  qed
  also have "\<dots> \<le> 2 ^ 52 * 2 ^ nat (e' - E)"
  proof -
    have "nat (eg + 1 - E) \<le> nat (e' - E)"
      using lt by simp
    then have "(2::int) ^ nat (eg + 1 - E) \<le> 2 ^ nat (e' - E)"
      by (rule power_increasing) simp
    then show ?thesis by simp
  qed
  also have "\<dots> \<le> q * 2 ^ nat (e' - E)"
    using \<open>2 ^ 52 \<le> q\<close> by (simp add: mult_right_mono)
  finally show ?thesis
    by simp
qed

theorem round_ne_nearest:
  assumes n: "0 < n" and res: "round_ne s n e = Finite s' m e'"
    and wf: "wf_float64 (Finite sg mg eg)"
    and E: "E \<le> e" "E \<le> eg" "E \<le> e'"
  shows "\<bar>m * 2 ^ nat (e' - E) - n * 2 ^ nat (e - E)\<bar>
           \<le> \<bar>mg * 2 ^ nat (eg - E) - n * 2 ^ nat (e - E)\<bar>
         \<and> (\<bar>m * 2 ^ nat (e' - E) - n * 2 ^ nat (e - E)\<bar>
               = \<bar>mg * 2 ^ nat (eg - E) - n * 2 ^ nat (e - E)\<bar>
             \<and> mg * 2 ^ nat (eg - E) \<noteq> m * 2 ^ nat (e' - E) \<longrightarrow> even m)"
proof -
  define e0 where "e0 = max (e + bitlen n - 53) (- 1074)"
  have c1: "(n \<le> 0) = False"
    using n by simp
  show ?thesis
  proof (cases "e0 \<le> e")
    case True
    then have c2: "(e0 \<le> e) = True" by simp
    have "round_ne s n e = pack s (n * 2 ^ nat (e - e0)) e0"
      by (simp only: round_ne_def Let_def e0_def [symmetric] c1 c2 if_False if_True)
    then have "m = n * 2 ^ nat (e - e0)" and "e' = e0"
      using res by (auto simp: pack_def split: if_splits)
    then have "m * 2 ^ nat (e' - E) = n * 2 ^ nat (e - E)"
      using pow2_split [OF E(3), of e] True by simp
    then show ?thesis
      by auto
  next
    case False
    then have lt: "e < e0" and c2: "(e0 \<le> e) = False" by simp_all
    define d :: int where "d = 2 ^ nat (e0 - e)"
    define q where "q = n div d"
    define q' where "q' = (if d < 2 * (n mod d) \<or> (2 * (n mod d) = d \<and> odd q) then q + 1 else q)"
    have r: "round_ne s n e = (if q' = 2 ^ 53 then pack s (2 ^ 52) (e0 + 1) else pack s q' e0)"
      by (simp only: round_ne_def Let_def e0_def [symmetric] d_def [symmetric]
            q_def [symmetric] q'_def [symmetric] c1 c2 if_False)
    have E0: "E \<le> e0"
      using E(1) lt by simp
    define D :: int where "D = 2 ^ nat (e0 - E)"
    define P :: int where "P = 2 ^ nat (e - E)"
    have DP: "D = d * P"
      unfolding D_def d_def P_def using pow2_split [OF E(1), of e0] lt by simp
    have mq: "(q' = 2 ^ 53 \<and> m = 2 ^ 52 \<and> e' = e0 + 1) \<or> (m = q' \<and> e' = e0)"
      using res r by (auto simp: pack_def split: if_splits)
    have ev: "even q' \<longrightarrow> even m"
      using mq by auto
    have up: "(2::int) ^ nat (e0 + 1 - E) = 2 * 2 ^ nat (e0 - E)"
    proof -
      have "nat (e0 + 1 - E) = Suc (nat (e0 - E))"
        using E0 by simp
      then show ?thesis by simp
    qed
    have M: "m * 2 ^ nat (e' - E) = q' * D"
      using mq up by (auto simp: D_def)
    have dpos: "0 < d" and Ppos: "0 < P"
      by (simp_all add: d_def P_def)
    define R where "R = (n mod d) * P"
    define QD where "QD = q * D"
    have N: "n * P = QD + R"
    proof -
      have "n = q * d + n mod d"
        by (simp add: q_def)
      then have "n * P = (q * d + n mod d) * P"
        by simp
      then show ?thesis
        by (simp add: QD_def R_def DP algebra_simps)
    qed
    have R0: "0 \<le> R" and RD: "R < D"
      using dpos Ppos by (simp_all add: R_def DP)
    have tie: "2 * R = D \<longrightarrow> even q'"
    proof
      assume "2 * R = D"
      then have "(2 * (n mod d)) * P = d * P"
        by (simp add: R_def DP mult.assoc)
      then have "2 * (n mod d) = d"
        using Ppos by simp
      then show "even q'"
        by (simp add: q'_def)
    qed
    have half: "(q' = q \<and> 2 * R \<le> D) \<or> (q' = q + 1 \<and> D \<le> 2 * R)"
    proof (cases "d < 2 * (n mod d) \<or> (2 * (n mod d) = d \<and> odd q)")
      case True
      then have "d \<le> 2 * (n mod d)" by auto
      then have "d * P \<le> (2 * (n mod d)) * P"
        using Ppos by (simp add: mult_right_mono)
      then show ?thesis
        using True by (simp add: q'_def R_def DP mult.assoc)
    next
      case False
      then have "2 * (n mod d) \<le> d" by auto
      then have "(2 * (n mod d)) * P \<le> d * P"
        using Ppos by (simp add: mult_right_mono)
      then show ?thesis
        using False by (simp add: q'_def R_def DP mult.assoc)
    qed
    have q52: "- 1074 < e0 \<longrightarrow> 2 ^ 52 \<le> q"
      using round_ne_quotient(2) [OF n e0_def lt] by (simp add: q_def d_def)
    have e0lo: "- 1074 \<le> e0"
      by (simp add: e0_def)
    define G where "G = mg * 2 ^ nat (eg - E)"
    have "G \<le> QD \<or> QD + D \<le> G"
      using float64_off_grid [OF wf E(2) E0 q52 e0lo]
      by (simp add: G_def QD_def D_def algebra_simps)
    moreover have "(q' * D = QD \<and> 2 * R \<le> D) \<or> (q' * D = QD + D \<and> D \<le> 2 * R)"
      using half by (auto simp: QD_def algebra_simps)
    ultimately have "\<bar>q' * D - (QD + R)\<bar> \<le> \<bar>G - (QD + R)\<bar>
        \<and> (\<bar>q' * D - (QD + R)\<bar> = \<bar>G - (QD + R)\<bar> \<and> G \<noteq> q' * D \<longrightarrow> 2 * R = D)"
      using R0 RD by (elim disjE conjE) auto
    then show ?thesis
      using M N tie ev by (simp add: G_def P_def)
  qed
qed

section \<open>NaN and the order of float64\<close>

lemma fadd_NaN_right [simp]: "fadd x NaN = NaN"
  by (cases x) simp_all

lemma fsub_NaN_left [simp]: "fsub NaN y = NaN"
  by (simp add: fsub_def)

lemma fsub_NaN_right [simp]: "fsub x NaN = NaN"
  by (simp add: fsub_def)

lemma foldl_fadd_NaN [simp]: "foldl fadd NaN xs = NaN"
  by (induction xs) simp_all




section \<open>The loops of \<^verbatim>\<open>cookDay\<close> as folds\<close>







lemma kept_loop_filter:
  "kept_loop lo hi runs = filter (\<lambda>r. \<not> flt (opsSec r) lo \<and> \<not> fgt (opsSec r) hi) runs"
  by (induction runs) simp_all

lemma length_kept_loop_le: "length (kept_loop lo hi runs) \<le> length runs"
  by (simp add: kept_loop_filter)

lemma avg_loop_kept:
  "avg_loop lo hi runs (avg, cnt) =
     (\<lparr>opsSec = foldl fadd (opsSec avg) (map opsSec (kept_loop lo hi runs)),
       readBytes = readBytes avg + sum_list (map readBytes (kept_loop lo hi runs)),
       writeBytes = writeBytes avg + sum_list (map writeBytes (kept_loop lo hi runs)),
       readAmp = foldl fadd (readAmp avg) (map readAmp (kept_loop lo hi runs)),
       writeAmp = foldl fadd (writeAmp avg) (map writeAmp (kept_loop lo hi runs))\<rparr>,
      cnt + length (kept_loop lo hi runs))"
proof (induction runs arbitrary: avg cnt)
  case Nil
  show ?case by simp
next
  case (Cons r rs)
  show ?case
    by (simp add: Cons.IH add.assoc)
qed

lemma cook_avg_kept:
  "cook_avg runs =
     (\<lparr>opsSec = fsum (map opsSec (cook_kept runs)),
       readBytes = sum_list (map readBytes (cook_kept runs)),
       writeBytes = sum_list (map writeBytes (cook_kept runs)),
       readAmp = fsum (map readAmp (cook_kept runs)),
       writeAmp = fsum (map writeAmp (cook_kept runs))\<rparr>,
      length (cook_kept runs))"
  by (simp add: cook_avg_def cook_kept_def avg_loop_kept zero_run_def fsum_def)

lemma cook_count_kept: "cook_count runs = length (cook_kept runs)"
  by (simp add: cook_count_def cook_avg_kept)

lemma int64_of_count_eq_0:
  assumes "n < 2 ^ 63"
  shows "(word_of_nat n :: 64 word) = 0 \<longleftrightarrow> n = 0"
proof
  assume "(word_of_nat n :: 64 word) = 0"
  then have "2 ^ LENGTH(64) dvd n"
    by (simp add: word_of_nat_eq_0_iff)
  moreover have "n < 2 ^ LENGTH(64)"
    using assms by simp
  ultimately show "n = 0"
    by (meson dvd_imp_le not_gr_zero not_less)
next
  assume "n = 0"
  then show "(word_of_nat n :: 64 word) = 0"
    by simp
qed

lemma cookDay_kept:
  assumes "length runs < 2 ^ 63"
  shows "cookDay runs =
           (if cook_kept runs = [] then Inl IntegerDivideByZero
            else Inr (averages_line (cook_kept runs)))"
proof -
  have "length (cook_kept runs) < 2 ^ 63"
    using assms length_kept_loop_le [of "cook_lo runs" "cook_hi runs" runs]
    by (simp add: cook_kept_def)
  then have "((word_of_nat (length (cook_kept runs)) :: 64 word) = 0) = (cook_kept runs = [])"
    by (simp add: int64_of_count_eq_0)
  then show ?thesis
    by (simp add: cookDay_def cook_avg_kept averages_line_def)
qed



text \<open>
  Whatever is rounded, the result is a well-formed float64. When it is finite, no
  well-formed float64 is nearer to the exact value \<open>n * 2\<^sup>e\<close>, and when another one is
  as near, the mantissa of the result is even. Values are compared in units of \<open>2\<^sup>E\<close>,
  for any \<open>E\<close> below the three exponents.
\<close>

lemma bitlen_wf:
  assumes "wf_float64 (Finite s m e)" and "m \<noteq> 0"
  shows "max (e + bitlen m - 53) (- 1074) = e"
proof (cases "m < 2 ^ 52")
  case True
  then have "bitlen m \<le> 52"
    by (simp add: bitlen_le_iff_power)
  moreover have "e = - 1074"
    using assms True by simp
  ultimately show ?thesis
    by simp
next
  case False
  then have "52 < bitlen m"
    using bitlen_ge_iff_power [of 53 m] by simp
  moreover have "bitlen m \<le> 53"
    using assms by (simp add: bitlen_le_iff_power)
  ultimately have "bitlen m = 53"
    by simp
  then show ?thesis
    using assms by simp
qed

lemma round_ne_scaled:
  assumes "wf_float64 (Finite s m e)" and "m \<noteq> 0"
  shows "round_ne s (m * 2 ^ j) (e - int j) = Finite s m e"
proof -
  have m: "0 < m" "m < 2 ^ 53" and e: "e \<le> 971"
    using assms by auto
  have bl: "bitlen (m * 2 ^ j) = bitlen m + int j"
    using m by simp
  have e': "max (e - int j + bitlen (m * 2 ^ j) - 53) (- 1074) = e"
    using bitlen_wf [OF assms] by (simp add: bl)
  have pos: "\<not> m * 2 ^ j \<le> 0"
    using m by (simp add: not_le)
  show ?thesis
  proof (cases "j = 0")
    case True
    then show ?thesis
      using pos e e' by (simp add: round_ne_def pack_def)
  next
    case False
    then have "\<not> e \<le> e - int j"
      by simp
    moreover have "nat (e - (e - int j)) = j"
      by simp
    ultimately show ?thesis
      using pos e m e' by (simp add: round_ne_def pack_def Let_def)
  qed
qed

lemma fdiv_one:
  assumes "wf_float64 x"
  shows "fdiv x (float64_of_int 1) = x"
proof (cases x)
  case (Finite s m e)
  show ?thesis
  proof (cases "m = 0")
    case True
    then have "e = - 1074"
      using assms Finite by simp
    then show ?thesis
      using Finite True by (simp add: float64_of_int_1 round_ratio_def round_ne_def)
  next
    case False
    have bl: "bitlen (4503599627370496::int) = 53"
      by (simp add: compute_bitlen)
    have "round_ratio s m 4503599627370496 (e + 52) = round_ne s (m * 2 ^ 62) (e - int 62)"
      by (simp add: round_ratio_def bl Let_def mult.commute)
    also have "\<dots> = Finite s m e"
      using assms Finite False by (intro round_ne_scaled) simp_all
    finally show ?thesis
      using Finite by (simp add: float64_of_int_1)
  qed
next
  case (Infinity s)
  then show ?thesis by (simp add: float64_of_int_1)
next
  case NaN
  then show ?thesis by simp
qed

lemma fadd_zero_left:
  assumes "wf_float64 x" and "\<not> is_neg_zero x"
  shows "fadd fzero x = x"
  using assms by (cases x) (auto simp: fzero_def)

lemma fadd_zero_right:
  assumes "wf_float64 x" and "\<not> is_neg_zero x"
  shows "fadd x fzero = x"
  using assms by (cases x) (auto simp: fzero_def)

lemma fsub_zero_right:
  assumes "wf_float64 x" and "\<not> is_neg_zero x"
  shows "fsub x fzero = x"
  using assms by (cases x) (auto simp: fzero_def fsub_def)

lemma fsub_self:
  assumes "is_finite x"
  shows "fsub x x = fzero"
  using assms by (cases x) (auto simp: fzero_def fsub_def Let_def with_sign_def)

lemma flt_irrefl [simp]: "\<not> flt x x"
  by (cases x) simp_all

lemma fzero_ops [simp]:
  "fmul fzero fzero = fzero" "fadd fzero fzero = fzero"
  "fdiv fzero (float64_of_int 1) = fzero" "fsqrt fzero = fzero"
  by (simp_all add: fzero_def round_ne_def round_ratio_def float64_of_int_1)

lemma int64_div_one [simp]: "int64_div a 1 = a"
  by (simp add: int64_div_def signed_divide_int_def sgn_mult_abs)

section \<open>A day of one run\<close>

lemma cook_mean_single:
  assumes "wf_float64 (opsSec r)" and "\<not> is_neg_zero (opsSec r)"
  shows "cook_mean [r] = opsSec r"
  using assms by (simp add: cook_mean_def fadd_zero_left fdiv_one)

lemma cook_stddev_single:
  assumes "wf_float64 (opsSec r)" and "\<not> is_neg_zero (opsSec r)"
  shows "cook_stddev [r] = (if is_finite (opsSec r) then fzero else NaN)"
proof (cases "opsSec r")
  case (Finite s m e)
  then have "fsub (opsSec r) (opsSec r) = fzero"
    by (simp add: fsub_self)
  then show ?thesis
    using assms Finite by (simp add: cook_stddev_def cook_mean_single)
next
  case (Infinity s)
  then show ?thesis
    using assms by (simp add: cook_stddev_def cook_mean_single fsub_def)
next
  case NaN
  then show ?thesis
    using assms by (simp add: cook_stddev_def cook_mean_single)
qed

lemma cook_band_single:
  assumes "wf_float64 (opsSec r)" and "\<not> is_neg_zero (opsSec r)"
  shows "cook_lo [r] = (if is_finite (opsSec r) then opsSec r else NaN)"
    and "cook_hi [r] = (if is_finite (opsSec r) then opsSec r else NaN)"
  using assms
  by (simp_all add: cook_lo_def cook_hi_def cook_mean_single cook_stddev_single
        fsub_zero_right fadd_zero_right)

lemma cook_kept_single:
  assumes "wf_float64 (opsSec r)" and "\<not> is_neg_zero (opsSec r)"
  shows "cook_kept [r] = [r]"
proof -
  have "\<not> flt (opsSec r) (if is_finite (opsSec r) then opsSec r else NaN)"
    and "\<not> flt (if is_finite (opsSec r) then opsSec r else NaN) (opsSec r)"
    by (cases "opsSec r"; simp)+
  then show ?thesis
    using assms by (simp add: cook_kept_def cook_band_single fgt_def)
qed

lemma cookDay_single:
  assumes "wf_run r"
    and "\<not> is_neg_zero (opsSec r)" and "\<not> is_neg_zero (readAmp r)"
    and "\<not> is_neg_zero (writeAmp r)"
  shows "cookDay [r] = Inr (sprintf_line (opsSec r) (readBytes r) (writeBytes r)
                              (readAmp r) (writeAmp r))"
proof -
  have wf: "wf_float64 (opsSec r)" "wf_float64 (readAmp r)" "wf_float64 (writeAmp r)"
    using assms(1) by (simp_all add: wf_run_def)
  have kept: "cook_kept [r] = [r]"
    using wf assms by (simp add: cook_kept_single)
  have "averages_line [r] = sprintf_line (opsSec r) (readBytes r) (writeBytes r)
                              (readAmp r) (writeAmp r)"
    using wf assms by (simp add: averages_line_def fsum_def fadd_zero_left fdiv_one)
  then show ?thesis
    using cookDay_kept [of "[r]"] kept by simp
qed

section \<open>Two example days\<close>




section \<open>The claims\<close>

subsection \<open>C1\<close>

text \<open>
  Claim C1: for every non-empty group of records given to \<^verbatim>\<open>cookDay\<close>, at least one
  record's \<^verbatim>\<open>opsSec\<close> lies in the band \<open>[mean - stddev, mean + stddev]\<close>, so
  \<^verbatim>\<open>count\<close> is at least 1 and no division by \<^verbatim>\<open>count\<close> divides by zero.

  In float64 arithmetic this fails. For the two runs of 85387.8 and 10583.9 ops/sec the
  mean is 47985.85 and the standard deviation 37401.95, and the rounded bounds are
  10583.900000000001 and 85387.79999999999: the lower bound is one unit in the last place
  above the smaller run, the upper bound one below the larger run. Both runs fall outside
  the band, \<^verbatim>\<open>count\<close> stays 0, and \<^verbatim>\<open>avg.readBytes / int64(count)\<close> panics.
\<close>

theorem cookDay_two_runs_divide_by_zero:
  "cook_lo [mk_run (float64_of_ratio 853878 10) 0 0 fzero fzero,
            mk_run (float64_of_ratio 105839 10) 0 0 fzero fzero]
     = Finite False 5818560558609204 (- 39)
   \<and> cook_hi [mk_run (float64_of_ratio 853878 10) 0 0 fzero fzero,
              mk_run (float64_of_ratio 105839 10) 0 0 fzero fzero]
     = Finite False 5867804935638220 (- 36)
   \<and> cook_count [mk_run (float64_of_ratio 853878 10) 0 0 fzero fzero,
                 mk_run (float64_of_ratio 105839 10) 0 0 fzero fzero] = 0
   \<and> cookDay [mk_run (float64_of_ratio 853878 10) 0 0 fzero fzero,
              mk_run (float64_of_ratio 105839 10) 0 0 fzero fzero]
     = Inl IntegerDivideByZero"
proof -
  let ?runs = "[mk_run (float64_of_ratio 853878 10) 0 0 fzero fzero,
                mk_run (float64_of_ratio 105839 10) 0 0 fzero fzero]"
  have mean: "cook_mean ?runs = Finite False 6595125005464371 (- 37)"
    unfolding cook_mean_def ops_85387_8 ops_10583_9
    by (simp add: mk_run_def f64_eval cong: let_weak_cong)
  have stddev: "cook_stddev ?runs = Finite False 5140484865812070 (- 37)"
    unfolding cook_stddev_def mean unfolding ops_85387_8 ops_10583_9
    by (simp add: mk_run_def f64_eval cong: let_weak_cong)
  have lo: "cook_lo ?runs = Finite False 5818560558609204 (- 39)"
    unfolding cook_lo_def mean stddev by (simp add: f64_eval cong: let_weak_cong)
  have hi: "cook_hi ?runs = Finite False 5867804935638220 (- 36)"
    unfolding cook_hi_def mean stddev by (simp add: f64_eval cong: let_weak_cong)
  have avg: "cook_avg ?runs = (zero_run, 0)"
    unfolding cook_avg_def lo hi unfolding ops_85387_8 ops_10583_9
    by (simp add: mk_run_def fgt_def Let_def with_sign_def)
  have "cook_count ?runs = 0"
    by (simp add: cook_count_def avg)
  moreover have "cookDay ?runs = Inl IntegerDivideByZero"
    by (simp add: cookDay_def avg)
  ultimately show ?thesis
    using lo hi by simp
qed

subsection \<open>C2\<close>




subsection \<open>C3\<close>

text \<open>
  Claim C3: for every group of exactly one record, the standard deviation is 0 and the
  band is \<open>[mean, mean]\<close>; the record is included, \<^verbatim>\<open>count\<close> is 1, and the line is
  that record's fields, formatted.

  As amended: the record is included, \<^verbatim>\<open>count\<close> is 1 and the line is the formatting
  of the record's five fields, for every record none of whose float64 fields is \<open>-0\<close>;
  the standard deviation is 0 and both bounds of the band are the mean, which is
  \<^verbatim>\<open>opsSec\<close>, when \<^verbatim>\<open>opsSec\<close> is finite.
\<close>

theorem cookDay_single_run:
  assumes "wf_run r"
    and "\<not> is_neg_zero (opsSec r)" and "\<not> is_neg_zero (readAmp r)"
    and "\<not> is_neg_zero (writeAmp r)"
  shows "cook_kept [r] = [r] \<and> cook_count [r] = 1
           \<and> cookDay [r] = Inr (sprintf_line (opsSec r) (readBytes r) (writeBytes r)
                                   (readAmp r) (writeAmp r))
           \<and> (is_finite (opsSec r) \<longrightarrow>
                 cook_mean [r] = opsSec r \<and> cook_stddev [r] = fzero
                   \<and> cook_lo [r] = cook_mean [r] \<and> cook_hi [r] = cook_mean [r])"
proof -
  have wf: "wf_float64 (opsSec r)"
    using assms(1) by (simp add: wf_run_def)
  have "cook_kept [r] = [r]"
    using wf assms(2) by (rule cook_kept_single)
  moreover have "cookDay [r] = Inr (sprintf_line (opsSec r) (readBytes r) (writeBytes r)
                                     (readAmp r) (writeAmp r))"
    using assms by (rule cookDay_single)
  ultimately show ?thesis
    using wf assms(2)
    by (simp add: cook_count_kept cook_mean_single cook_stddev_single cook_band_single)
qed

theorem cookDay_single_run_witness:
  "wf_run (mk_run (float64_of_ratio 12345 10) 100 200 (float64_of_int 1) (float64_of_int 2))
   \<and> is_finite (float64_of_ratio 12345 10)
   \<and> cook_stddev [mk_run (float64_of_ratio 12345 10) 100 200 (float64_of_int 1)
                    (float64_of_int 2)] = fzero
   \<and> cook_count [mk_run (float64_of_ratio 12345 10) 100 200 (float64_of_int 1)
                   (float64_of_int 2)] = 1
   \<and> cookDay [mk_run (float64_of_ratio 12345 10) 100 200 (float64_of_int 1)
                (float64_of_int 2)] = Inr ''1234.5,100,200,1.0,2.0''"
proof -
  let ?r = "mk_run (float64_of_ratio 12345 10) 100 200 (float64_of_int 1) (float64_of_int 2)"
  have wf: "wf_run ?r"
    by (simp add: wf_run_def mk_run_def ops_1234_5 float64_of_int_1 float64_of_int_2)
  have nz: "\<not> is_neg_zero (opsSec ?r)" "\<not> is_neg_zero (readAmp ?r)"
    "\<not> is_neg_zero (writeAmp ?r)"
    by (simp_all add: mk_run_def ops_1234_5 float64_of_int_1 float64_of_int_2)
  have fin: "is_finite (opsSec ?r)"
    by (simp add: mk_run_def ops_1234_5)
  have line: "sprintf_line (opsSec ?r) (readBytes ?r) (writeBytes ?r) (readAmp ?r) (writeAmp ?r)
                = ''1234.5,100,200,1.0,2.0''"
    unfolding mk_run_def ops_1234_5 float64_of_int_1 float64_of_int_2
    by (simp add: fmt_eval Let_def cong: let_weak_cong)
  show ?thesis
    using cookDay_single_run [OF wf nz] wf fin line
    by (simp add: mk_run_def)
qed

theorem cookDay_single_run_counterexample:
  "cook_stddev [mk_run (Infinity False) 1 2 (Finite True 0 (- 1074)) fzero] = NaN
   \<and> cook_lo [mk_run (Infinity False) 1 2 (Finite True 0 (- 1074)) fzero] = NaN
   \<and> cookDay [mk_run (Infinity False) 1 2 (Finite True 0 (- 1074)) fzero]
        = Inr ''+Inf,1,2,0.0,0.0''
   \<and> sprintf_line (Infinity False) 1 2 (Finite True 0 (- 1074)) fzero = ''+Inf,1,2,-0.0,0.0''"
proof -
  let ?runs = "[mk_run (Infinity False) 1 2 (Finite True 0 (- 1074)) fzero]"
  have mean: "cook_mean ?runs = Infinity False"
    by (simp add: cook_mean_def mk_run_def fzero_def float64_of_int_1)
  have stddev: "cook_stddev ?runs = NaN"
    unfolding cook_stddev_def mean by (simp add: mk_run_def fsub_def)
  have lo: "cook_lo ?runs = NaN"
    unfolding cook_lo_def mean stddev by simp
  have hi: "cook_hi ?runs = NaN"
    unfolding cook_hi_def mean stddev by simp
  have kept: "cook_kept ?runs = ?runs"
    unfolding cook_kept_def lo hi by (simp add: fgt_def mk_run_def)
  have "averages_line ?runs = ''+Inf,1,2,0.0,0.0''"
    unfolding averages_line_def fsum_def
    by (simp add: mk_run_def float64_of_int_1 fzero_def round_ratio_def round_ne_def fmt_eval Let_def)
  then have "cookDay ?runs = Inr ''+Inf,1,2,0.0,0.0''"
    using cookDay_kept [of ?runs] kept by simp
  moreover have "sprintf_line (Infinity False) 1 2 (Finite True 0 (- 1074)) fzero
                   = ''+Inf,1,2,-0.0,0.0''"
    by (simp add: fzero_def fmt_eval Let_def)
  ultimately show ?thesis
    using stddev lo by simp
qed

subsection \<open>C4\<close>

lemma outlier_group:
  assumes "map opsSec runs =
             [float64_of_int 100, float64_of_int 100, float64_of_int 100, float64_of_int 100,
              float64_of_int 10000]"
  obtains r1 r2 r3 r4 r5 where "runs = [r1, r2, r3, r4, r5]"
    and "opsSec r1 = Finite False 7036874417766400 (- 46)"
    and "opsSec r2 = Finite False 7036874417766400 (- 46)"
    and "opsSec r3 = Finite False 7036874417766400 (- 46)"
    and "opsSec r4 = Finite False 7036874417766400 (- 46)"
    and "opsSec r5 = Finite False 5497558138880000 (- 39)"
  using assms unfolding float64_of_int_100 float64_of_int_10000
  by (auto simp: map_eq_Cons_conv)

text \<open>
  Claim C4: for a day whose \<^verbatim>\<open>opsSec\<close> values are 100, 100, 100, 100 and 10000, the
  record of 10000 lies above the band and is left out, the four records of 100 are
  kept, and the line starts with 100.0, not with the mean of all five, 2080.
\<close>

theorem cookDay_outlier:
  assumes "map opsSec runs =
             [float64_of_int 100, float64_of_int 100, float64_of_int 100, float64_of_int 100,
              float64_of_int 10000]"
  shows "fmt_f1 (cook_mean runs) = ''2080.0''
           \<and> fgt (opsSec (runs ! 4)) (cook_hi runs)
           \<and> cook_kept runs = take 4 runs \<and> cook_count runs = 4
           \<and> (\<exists>rest. cookDay runs = Inr (''100.0,'' @ rest))"
proof -
  from assms obtain r1 r2 r3 r4 r5 where runs: "runs = [r1, r2, r3, r4, r5]"
    and ops: "opsSec r1 = Finite False 7036874417766400 (- 46)"
      "opsSec r2 = Finite False 7036874417766400 (- 46)"
      "opsSec r3 = Finite False 7036874417766400 (- 46)"
      "opsSec r4 = Finite False 7036874417766400 (- 46)"
      "opsSec r5 = Finite False 5497558138880000 (- 39)"
    by (rule outlier_group)
  have mean: "cook_mean runs = Finite False 4573968371548160 (- 41)"
    unfolding cook_mean_def runs by (simp add: ops f64_eval cong: let_weak_cong)
  have stddev: "cook_stddev runs = Finite False 8708132091985920 (- 41)"
    unfolding cook_stddev_def mean unfolding runs
    by (simp add: ops f64_eval cong: let_weak_cong)
  have lo: "cook_lo runs = Finite True 8268327440875520 (- 42)"
    unfolding cook_lo_def mean stddev by (simp add: f64_eval cong: let_weak_cong)
  have hi: "cook_hi runs = Finite False 6641050231767040 (- 40)"
    unfolding cook_hi_def mean stddev by (simp add: f64_eval cong: let_weak_cong)
  have kept: "cook_kept runs = [r1, r2, r3, r4]"
    unfolding cook_kept_def lo hi unfolding runs
    by (simp add: ops fgt_def Let_def with_sign_def)
  have "fmt_f1 (fdiv (fsum (map opsSec [r1, r2, r3, r4])) (float64_of_int (int (length [r1, r2, r3, r4]))))
          = ''100.0''"
    unfolding fsum_def by (simp add: ops f64_eval fmt_eval cong: let_weak_cong)
  then have "\<exists>rest. averages_line [r1, r2, r3, r4] = ''100.0,'' @ rest"
    by (simp add: averages_line_def sprintf_line_def)
  moreover have "cookDay runs = Inr (averages_line [r1, r2, r3, r4])"
    using cookDay_kept [of runs] kept by (simp add: runs)
  ultimately have line: "\<exists>rest. cookDay runs = Inr (''100.0,'' @ rest)"
    by simp
  have "fmt_f1 (cook_mean runs) = ''2080.0''"
    unfolding mean by (simp add: fmt_eval Let_def cong: let_weak_cong)
  moreover have "fgt (opsSec (runs ! 4)) (cook_hi runs)"
    unfolding hi by (simp add: runs ops fgt_def Let_def with_sign_def)
  moreover have "cook_kept runs = take 4 runs"
    using kept by (simp add: runs)
  moreover have "cook_count runs = 4"
    by (simp add: cook_count_kept kept)
  ultimately show ?thesis
    using line by simp
qed

theorem cookDay_outlier_witness:
  "map opsSec
     [mk_run (float64_of_int 100) 10 20 (float64_of_int 1) (float64_of_int 2),
      mk_run (float64_of_int 100) 10 20 (float64_of_int 1) (float64_of_int 2),
      mk_run (float64_of_int 100) 10 20 (float64_of_int 1) (float64_of_int 2),
      mk_run (float64_of_int 100) 10 20 (float64_of_int 1) (float64_of_int 2),
      mk_run (float64_of_int 10000) 1000 2000 (float64_of_int 3) (float64_of_int 3)]
     = [float64_of_int 100, float64_of_int 100, float64_of_int 100, float64_of_int 100,
        float64_of_int 10000]
   \<and> cookDay
     [mk_run (float64_of_int 100) 10 20 (float64_of_int 1) (float64_of_int 2),
      mk_run (float64_of_int 100) 10 20 (float64_of_int 1) (float64_of_int 2),
      mk_run (float64_of_int 100) 10 20 (float64_of_int 1) (float64_of_int 2),
      mk_run (float64_of_int 100) 10 20 (float64_of_int 1) (float64_of_int 2),
      mk_run (float64_of_int 10000) 1000 2000 (float64_of_int 3) (float64_of_int 3)]
     = Inr ''100.0,10,20,1.0,2.0''"
proof -
  let ?r = "mk_run (float64_of_int 100) 10 20 (float64_of_int 1) (float64_of_int 2)"
  let ?o = "mk_run (float64_of_int 10000) 1000 2000 (float64_of_int 3) (float64_of_int 3)"
  let ?runs = "[?r, ?r, ?r, ?r, ?o]"
  have ops: "map opsSec ?runs =
      [float64_of_int 100, float64_of_int 100, float64_of_int 100, float64_of_int 100,
       float64_of_int 10000]"
    by (simp add: mk_run_def)
  have "cook_kept ?runs = take 4 ?runs"
    using cookDay_outlier [OF ops] by simp
  then have kept: "cook_kept ?runs = [?r, ?r, ?r, ?r]"
    by simp
  have "averages_line [?r, ?r, ?r, ?r] = ''100.0,10,20,1.0,2.0''"
    unfolding averages_line_def fsum_def float64_of_int_100 float64_of_int_1 float64_of_int_2
    by (simp add: mk_run_def f64_eval fmt_eval cong: let_weak_cong)
  then have "cookDay ?runs = Inr ''100.0,10,20,1.0,2.0''"
    using cookDay_kept [of ?runs] kept by simp
  with ops show ?thesis
    by simp
qed

subsection \<open>C5\<close>






subsection \<open>C6\<close>






subsection \<open>C7\<close>









subsection \<open>C8\<close>





subsection \<open>C9\<close>

lemma split_no_sep:
  assumes "sep \<notin> set s"
  shows "strings_Split sep s = [s]"
proof -
  have d: "dropWhile (\<lambda>c. c \<noteq> sep) s = []"
    using assms by auto
  show ?thesis
    by (subst strings_Split.simps, subst d) simp
qed

lemma split_at_sep:
  assumes "sep \<notin> set a"
  shows "strings_Split sep (a @ sep # r) = a # strings_Split sep r"
proof -
  have a: "x \<noteq> sep" if "x \<in> set a" for x
    using assms that by auto
  have d: "dropWhile (\<lambda>c. c \<noteq> sep) (a @ sep # r) = sep # r"
    using a by simp
  have t: "takeWhile (\<lambda>c. c \<noteq> sep) (a @ sep # r) = a"
    using a by simp
  show ?thesis
    by (subst strings_Split.simps, subst d, subst t) simp
qed

lemma split_second:
  assumes "sep \<notin> set a" and "sep \<notin> set b" and "tail = [] \<or> (\<exists>c. tail = sep # c)"
  shows "1 < length (strings_Split sep (a @ sep # b @ tail))"
    and "strings_Split sep (a @ sep # b @ tail) ! 1 = b"
proof -
  have "\<exists>ps. strings_Split sep (b @ tail) = b # ps"
    using assms(2,3) by (auto simp: split_no_sep split_at_sep)
  then obtain ps where "strings_Split sep (a @ sep # b @ tail) = a # b # ps"
    using assms(1) by (auto simp: split_at_sep)
  then show "1 < length (strings_Split sep (a @ sep # b @ tail))"
    and "strings_Split sep (a @ sep # b @ tail) ! 1 = b"
    by simp_all
qed

lemma runs_at_record_run:
  "runs_at (record_run name day r l) name' d =
     (if name' = name \<and> d = day then runs_at l name day @ [r] else runs_at l name' d)"
  by (auto simp: runs_at_def record_run_def day_runs_def update_conv' Let_def
        split: option.splits)

lemma scan_loop_other_days:
  assumes "d \<noteq> day"
  shows "runs_at (fst (scan_loop sscanf day lines (l, err))) name d = runs_at l name d"
  using assms
  by (induction lines arbitrary: l err) (simp_all add: Let_def runs_at_record_run)

text \<open>
  Claim C9: the day of all records parsed from a file is the second segment of its path,
  split at the platform's path separator, however deep the file lies; a path of fewer
  than two segments is ignored and contributes no record.

  A path has fewer than two segments when it holds no separator. In a path
  \<open>a/b\<close> or \<open>a/b/c\<close>, with no separator in \<open>a\<close> and \<open>b\<close>, the lines are recorded under
  the day \<open>b\<close>, so the runs stored under every other day stay as they were.
\<close>

theorem load_day:
  assumes "sep \<notin> set a" and "sep \<notin> set b" and "tail = [] \<or> (\<exists>c. tail = sep # c)"
  shows "load sep sscanf (a @ sep # b @ tail) (Inr lines) st = scan_loop sscanf b lines st
         \<and> (\<forall>name d. d \<noteq> b \<longrightarrow>
               runs_at (fst (load sep sscanf (a @ sep # b @ tail) file (l, err))) name d
                 = runs_at l name d)
         \<and> (\<forall>path. sep \<notin> set path \<longrightarrow> load sep sscanf path file st = st)"
proof -
  note parts = split_second [OF assms]
  have 1: "load sep sscanf (a @ sep # b @ tail) (Inr lines) st = scan_loop sscanf b lines st"
    using parts by (simp add: load_def Let_def)
  have 2: "runs_at (fst (load sep sscanf (a @ sep # b @ tail) file (l, err))) name d
             = runs_at l name d" if "d \<noteq> b" for name d
    using parts that by (cases "file") (simp_all add: load_def Let_def scan_loop_other_days)
  have 3: "load sep sscanf path file st = st" if "sep \<notin> set path" for path
    using that by (simp add: load_def split_no_sep)
  from 1 2 3 show ?thesis
    by blast
qed

theorem load_day_witness:
  "load CHR ''/''
     (\<lambda>line. \<lparr>scan_n = 7, scan_err = None, scan_name = ''X'',
               scan_run = mk_run (float64_of_int 2) 5 6 (float64_of_int 3) (float64_of_int 1)\<rparr>)
     ''data/2020-01-01/sub/run1.bz2''
     (Inr [''BenchmarkX 1 2.0 ops/sec 5 read 6 write 3.0 r-amp 1.0 w-amp''])
     (\<lparr>data = []\<rparr>, [])
   = (\<lparr>data = [(''X'', \<lparr>days = [(''2020-01-01'',
          [mk_run (float64_of_int 2) 5 6 (float64_of_int 3) (float64_of_int 1)])]\<rparr>)]\<rparr>, [])"
proof -
  have "''data/2020-01-01/sub/run1.bz2'' = ''data'' @ CHR ''/'' # ''2020-01-01'' @ ''/sub/run1.bz2''"
    by simp
  moreover have "CHR ''/'' \<notin> set ''data''" and "CHR ''/'' \<notin> set ''2020-01-01''"
    and "''/sub/run1.bz2'' = [] \<or> (\<exists>c. ''/sub/run1.bz2'' = CHR ''/'' # c)"
    by simp_all
  ultimately have "load CHR ''/'' sscanf ''data/2020-01-01/sub/run1.bz2'' (Inr lines) st
      = scan_loop sscanf ''2020-01-01'' lines st" for sscanf lines st
    using load_day [of "CHR ''/''" "''data''" "''2020-01-01''" "''/sub/run1.bz2''"]
    by simp
  then show ?thesis
    by (simp add: record_run_def day_runs_def)
qed

subsection \<open>C10\<close>




end
